theory Spec2Isabelle
  imports Main "HOL-Library.Sublist"
begin

section \<open>Python values\<close>

text \<open>
  The rows and cookies of \<^verbatim>\<open>x_v3_local.py\<close> are \<^verbatim>\<open>dict[str, Any]\<close>. A field is modelled by
  the scalar values JSON and the cookie libraries produce: \<^verbatim>\<open>None\<close>, booleans, integers and
  strings. A dictionary is an association list in insertion order; \<^verbatim>\<open>d.get(k)\<close> is
  \<^verbatim>\<open>None\<close> for a missing key. Floats and nested containers are not modelled.
\<close>

datatype pyval = PNone | PBool bool | PInt int | PStr string

type_synonym pydict = "(string \<times> pyval) list"

fun truthy :: "pyval \<Rightarrow> bool" where
  "truthy PNone = False"
| "truthy (PBool b) = b"
| "truthy (PInt i) = (i \<noteq> 0)"
| "truthy (PStr s) = (s \<noteq> [])"

definition py_or :: "pyval \<Rightarrow> pyval \<Rightarrow> pyval" where
  "py_or a b = (if truthy a then a else b)"

definition dict_get :: "pydict \<Rightarrow> string \<Rightarrow> pyval" where
  "dict_get d k = (case map_of d k of None \<Rightarrow> PNone | Some v \<Rightarrow> v)"

definition digit_char :: "nat \<Rightarrow> char" where
  "digit_char d = ''0123456789'' ! d"

function nat_digits :: "nat \<Rightarrow> string" where
  "nat_digits n = (if n < 10 then [digit_char n] else nat_digits (n div 10) @ [digit_char (n mod 10)])"
  by pat_completeness auto
termination
  by (relation "measure id") auto

declare nat_digits.simps [simp del]

fun py_str :: "pyval \<Rightarrow> string" where
  "py_str PNone = ''None''"
| "py_str (PBool b) = (if b then ''True'' else ''False'')"
| "py_str (PInt i) = (if i < 0 then CHR ''-'' # nat_digits (nat (- i)) else nat_digits (nat i))"
| "py_str (PStr s) = s"

text \<open>\<^verbatim>\<open>xs[:n]\<close>: a negative bound counts from the end.\<close>

definition py_slice_to :: "int \<Rightarrow> 'a list \<Rightarrow> 'a list" where
  "py_slice_to n xs = (if 0 \<le> n then take (nat n) xs else take (length xs - nat (- n)) xs)"

section \<open>Harvester: \<^verbatim>\<open>_collect_with_scroll\<close>\<close>

text \<open>\<^verbatim>\<open>key = str(row.get("key") or "")\<close>\<close>

definition row_key :: "pydict \<Rightarrow> string" where
  "row_key row = py_str (py_or (dict_get row ''key'') (PStr []))"

text \<open>
  \<^verbatim>\<open>seen\<close> is an insertion-ordered dictionary from key to row: an association list with
  new keys appended. The inner \<^verbatim>\<open>for row in rows\<close> loop:
\<close>

type_synonym seen_map = "(string \<times> pydict) list"

fun absorb_rows :: "seen_map \<Rightarrow> pydict list \<Rightarrow> seen_map" where
  "absorb_rows seen [] = seen"
| "absorb_rows seen (row # rows) =
     (let key = row_key row in
      if key = [] then absorb_rows seen rows
      else if key \<notin> set (map fst seen) then absorb_rows (seen @ [(key, row)]) rows
      else absorb_rows seen rows)"

text \<open>
  The outer \<^verbatim>\<open>for _ in range(max_scrolls)\<close> loop, on the cycles that remain. The view is a
  state \<open>'p\<close>; \<open>extractor\<close> reads it and \<open>advance\<close> is the wheel scroll followed by the
  wait. The third component counts the calls of the extractor.
\<close>

fun scroll_loop ::
  "('p \<Rightarrow> pydict list) \<Rightarrow> ('p \<Rightarrow> 'p) \<Rightarrow> int \<Rightarrow> nat \<Rightarrow> seen_map \<times> 'p \<times> nat \<Rightarrow> seen_map \<times> 'p \<times> nat" where
  "scroll_loop extractor advance limit 0 st = st"
| "scroll_loop extractor advance limit (Suc n) (seen, page, c) =
     (let seen' = absorb_rows seen (extractor page) in
      if limit \<le> int (length seen') then (seen', page, Suc c)
      else scroll_loop extractor advance limit n (seen', advance page, Suc c))"

definition harvest_run ::
  "'p \<Rightarrow> ('p \<Rightarrow> pydict list) \<Rightarrow> ('p \<Rightarrow> 'p) \<Rightarrow> int \<Rightarrow> int \<Rightarrow> seen_map \<times> 'p \<times> nat" where
  "harvest_run page extractor advance limit max_scrolls =
     scroll_loop extractor advance limit (nat max_scrolls) ([], page, 0)"

text \<open>\<^verbatim>\<open>list(seen.values())\<close> when the loop is left, and the number of cycles it ran.\<close>

definition harvest_unique ::
  "'p \<Rightarrow> ('p \<Rightarrow> pydict list) \<Rightarrow> ('p \<Rightarrow> 'p) \<Rightarrow> int \<Rightarrow> int \<Rightarrow> pydict list" where
  "harvest_unique page extractor advance limit max_scrolls =
     map snd (fst (harvest_run page extractor advance limit max_scrolls))"

definition harvest_cycles ::
  "'p \<Rightarrow> ('p \<Rightarrow> pydict list) \<Rightarrow> ('p \<Rightarrow> 'p) \<Rightarrow> int \<Rightarrow> int \<Rightarrow> nat" where
  "harvest_cycles page extractor advance limit max_scrolls =
     snd (snd (harvest_run page extractor advance limit max_scrolls))"

definition collect_with_scroll ::
  "'p \<Rightarrow> ('p \<Rightarrow> pydict list) \<Rightarrow> ('p \<Rightarrow> 'p) \<Rightarrow> int \<Rightarrow> int \<Rightarrow> pydict list" where
  "collect_with_scroll page extractor advance limit max_scrolls =
     py_slice_to limit (harvest_unique page extractor advance limit max_scrolls)"

text \<open>
  The rows the extractor returned during the first \<open>k\<close> cycles, in order: the view of
  cycle \<open>i\<close> is the starting view advanced \<open>i\<close> times.
\<close>

definition harvest_stream :: "('p \<Rightarrow> pydict list) \<Rightarrow> ('p \<Rightarrow> 'p) \<Rightarrow> 'p \<Rightarrow> nat \<Rightarrow> pydict list" where
  "harvest_stream extractor advance page k =
     concat (map (\<lambda>i. extractor ((advance ^^ i) page)) [0..<k])"

text \<open>
  The spec's words for deduplication, "first occurrence wins, rows lacking a key are
  discarded": keep a keyed row and drop every later row with its key.
\<close>

function first_wins :: "pydict list \<Rightarrow> pydict list" where
  "first_wins [] = []"
| "first_wins (r # rs) =
     (if row_key r = [] then first_wins rs
      else r # first_wins (filter (\<lambda>x. row_key x \<noteq> row_key r) rs))"
  by pat_completeness auto
termination
  by (relation "measure length") (auto simp: less_Suc_eq_le)

subsection \<open>Example views\<close>

text \<open>Concrete extractors over a view that is a scroll position.\<close>

definition example_row :: "string \<Rightarrow> int \<Rightarrow> pydict" where
  "example_row k v = [(''key'', PStr k), (''likes'', PInt v)]"

definition example_feed :: "nat \<Rightarrow> pydict list" where
  "example_feed p = map (\<lambda>i. [(''key'', PInt (int (3 * p + i + 1)))]) [0..<3]"

definition example_static :: "pydict list" where
  "example_static = [example_row ''a'' 1, example_row ''b'' 2, example_row ''c'' 3,
                     example_row ''d'' 4, example_row ''e'' 5]"

definition example_drift :: "nat \<Rightarrow> pydict list" where
  "example_drift p = [example_row ''a'' (int p), example_row ''b'' (int p), example_row ''c'' (int p),
                      example_row ''d'' (int p), example_row ''e'' (int p)]"

definition example_dups :: "nat \<Rightarrow> pydict list" where
  "example_dups p = [example_row ''a'' (int p), [(''likes'', PInt 7)], example_row ''b'' (int p),
                     [(''key'', PStr []), (''likes'', PInt 8)], example_row ''a'' 99]"

section \<open>Paginated read endpoints\<close>

text \<open>
  Every \<^verbatim>\<open>_run_*\<close> function that calls \<^verbatim>\<open>_collect_with_scroll\<close>. Each computes
  \<^verbatim>\<open>limit = max(1, min(args.limit, cap))\<close> with its own constant \<open>cap\<close> and then calls the
  harvester; \<open>harvest_limit\<close> is the limit argument of that call and \<open>harvest_max_scrolls\<close>
  its \<^verbatim>\<open>max_scrolls\<close> (14 when the call leaves the default).
\<close>

datatype endpoint =
    UserLastTweets | HomeTimeline | NotificationsList | UserConnections
  | SearchUser | AdvancedSearch | TweetReplies | TweetQuotes | TweetRetweeters
  | TweetThreadContext | Trends | SpacesLive

fun limit_cap :: "endpoint \<Rightarrow> int" where
  "limit_cap UserLastTweets = 200"
| "limit_cap HomeTimeline = 200"
| "limit_cap NotificationsList = 300"
| "limit_cap UserConnections = 500"
| "limit_cap SearchUser = 200"
| "limit_cap AdvancedSearch = 200"
| "limit_cap TweetReplies = 200"
| "limit_cap TweetQuotes = 200"
| "limit_cap TweetRetweeters = 400"
| "limit_cap TweetThreadContext = 200"
| "limit_cap Trends = 100"
| "limit_cap SpacesLive = 100"

definition clamped_limit :: "endpoint \<Rightarrow> int \<Rightarrow> int" where
  "clamped_limit e arg_limit = max 1 (min arg_limit (limit_cap e))"

text \<open>
  \<^verbatim>\<open>_run_tweet_replies\<close> passes \<^verbatim>\<open>limit + 2\<close>; every other endpoint passes \<^verbatim>\<open>limit\<close>.
\<close>

fun harvest_limit :: "endpoint \<Rightarrow> int \<Rightarrow> int" where
  "harvest_limit TweetReplies arg_limit = clamped_limit TweetReplies arg_limit + 2"
| "harvest_limit e arg_limit = clamped_limit e arg_limit"

fun harvest_max_scrolls :: "endpoint \<Rightarrow> int" where
  "harvest_max_scrolls UserLastTweets = 14"
| "harvest_max_scrolls HomeTimeline = 20"
| "harvest_max_scrolls NotificationsList = 16"
| "harvest_max_scrolls UserConnections = 18"
| "harvest_max_scrolls SearchUser = 16"
| "harvest_max_scrolls AdvancedSearch = 18"
| "harvest_max_scrolls TweetReplies = 18"
| "harvest_max_scrolls TweetQuotes = 18"
| "harvest_max_scrolls TweetRetweeters = 18"
| "harvest_max_scrolls TweetThreadContext = 20"
| "harvest_max_scrolls Trends = 6"
| "harvest_max_scrolls SpacesLive = 8"

definition endpoint_harvest ::
  "endpoint \<Rightarrow> int \<Rightarrow> 'p \<Rightarrow> ('p \<Rightarrow> pydict list) \<Rightarrow> ('p \<Rightarrow> 'p) \<Rightarrow> pydict list" where
  "endpoint_harvest e arg_limit page extractor advance =
     collect_with_scroll page extractor advance (harvest_limit e arg_limit) (harvest_max_scrolls e)"

text \<open>
  \<^verbatim>\<open>_run_tweet_replies\<close> then drops the rows of the tweet itself and cuts to the clamped
  limit: \<^verbatim>\<open>[row for row in tweets if str(row.get("tweet_id") or "") != tweet_id][:limit]\<close>.
\<close>

definition tweet_replies_rows ::
  "string \<Rightarrow> int \<Rightarrow> 'p \<Rightarrow> ('p \<Rightarrow> pydict list) \<Rightarrow> ('p \<Rightarrow> 'p) \<Rightarrow> pydict list" where
  "tweet_replies_rows tweet_id arg_limit page extractor advance =
     py_slice_to (clamped_limit TweetReplies arg_limit)
       (filter (\<lambda>row. py_str (py_or (dict_get row ''tweet_id'') (PStr [])) \<noteq> tweet_id)
          (endpoint_harvest TweetReplies arg_limit page extractor advance))"

section \<open>Session cookies\<close>

text \<open>\<^verbatim>\<open>X_HOSTS = ("x.com", "twitter.com")\<close>; \<open>py_in sub s\<close> is Python's \<^verbatim>\<open>sub in s\<close> on strings.\<close>

definition X_HOSTS :: "string list" where
  "X_HOSTS = [''x.com'', ''twitter.com'']"

fun starts_with :: "string \<Rightarrow> string \<Rightarrow> bool" where
  "starts_with [] s = True"
| "starts_with (a # as) [] = False"
| "starts_with (a # as) (b # bs) = (a = b \<and> starts_with as bs)"

fun py_in :: "string \<Rightarrow> string \<Rightarrow> bool" where
  "py_in sub [] = (sub = [])"
| "py_in sub (c # cs) = (starts_with sub (c # cs) \<or> py_in sub cs)"

text \<open>\<^verbatim>\<open>any(host in domain for host in X_HOSTS)\<close>\<close>

definition in_x_hosts :: "string \<Rightarrow> bool" where
  "in_x_hosts domain = list_ex (\<lambda>host. py_in host domain) X_HOSTS"

text \<open>\<^verbatim>\<open>str(item.get(k) or "")\<close>\<close>

definition str_field :: "pydict \<Rightarrow> string \<Rightarrow> string" where
  "str_field item k = py_str (py_or (dict_get item k) (PStr []))"

subsection \<open>\<^verbatim>\<open>_load_saved_session_cookies\<close>\<close>

text \<open>
  The cookie file is absent (\<open>None\<close>) or holds a document: one \<^verbatim>\<open>json.loads\<close> rejects, one
  that is not a list, or a list whose elements are dictionaries or something else.
\<close>

datatype json_item = JDict pydict | JOther

datatype cookie_doc = DocUnparsable | DocNotList | DocList "json_item list"

definition load_keeps :: "pydict \<Rightarrow> bool" where
  "load_keeps item =
     (let domain = str_field item ''domain'';
          name = str_field item ''name'';
          value = str_field item ''value''
      in \<not> (name = [] \<or> value = [] \<or> \<not> in_x_hosts domain))"

fun load_cookie_items :: "json_item list \<Rightarrow> pydict list" where
  "load_cookie_items [] = []"
| "load_cookie_items (JOther # raw) = load_cookie_items raw"
| "load_cookie_items (JDict item # raw) =
     (if load_keeps item then item # load_cookie_items raw else load_cookie_items raw)"

definition load_saved_session_cookies :: "cookie_doc option \<Rightarrow> pydict list" where
  "load_saved_session_cookies file =
     (case file of
        None \<Rightarrow> []
      | Some DocUnparsable \<Rightarrow> []
      | Some DocNotList \<Rightarrow> []
      | Some (DocList raw) \<Rightarrow> load_cookie_items raw)"

subsection \<open>\<^verbatim>\<open>_save_session_cookies\<close>\<close>





subsection \<open>\<^verbatim>\<open>_load_x_cookies\<close>\<close>

text \<open>
  A cookie of the browser's jar, as \<^verbatim>\<open>http.cookiejar\<close> types it; \<open>None\<close> is an attribute
  that is missing (or, for the strings and \<^verbatim>\<open>expires\<close>, \<^verbatim>\<open>None\<close>), which
  \<^verbatim>\<open>getattr(cookie, a, default) or default\<close> replaces by the default.
\<close>

record jar_cookie =
  jc_domain :: "string option"
  jc_name :: "string option"
  jc_value :: "string option"
  jc_path :: "string option"
  jc_secure :: "bool option"
  jc_expires :: "int option"

definition attr_or :: "string option \<Rightarrow> string \<Rightarrow> string" where
  "attr_or a d = (case a of None \<Rightarrow> d | Some s \<Rightarrow> (if s = [] then d else s))"

definition jar_keeps :: "jar_cookie \<Rightarrow> bool" where
  "jar_keeps c =
     (let domain = attr_or (jc_domain c) [] in
      if \<not> in_x_hosts domain then False
      else let name = attr_or (jc_name c) []; value = attr_or (jc_value c) []
           in \<not> (name = [] \<or> value = []))"

definition jar_cookie_dict :: "jar_cookie \<Rightarrow> pydict" where
  "jar_cookie_dict c =
     [(''name'', PStr (attr_or (jc_name c) [])),
      (''value'', PStr (attr_or (jc_value c) [])),
      (''domain'', PStr (attr_or (jc_domain c) [])),
      (''path'', PStr (attr_or (jc_path c) ''/'')),
      (''secure'', PBool (case jc_secure c of None \<Rightarrow> True | Some b \<Rightarrow> b)),
      (''httpOnly'', PBool False)]
     @ (case jc_expires c of
          None \<Rightarrow> []
        | Some e \<Rightarrow> (if 0 < e then [(''expires'', PInt e)] else []))"

fun jar_cookies :: "jar_cookie list \<Rightarrow> pydict list" where
  "jar_cookies [] = []"
| "jar_cookies (c # jar) =
     (if jar_keeps c then jar_cookie_dict c # jar_cookies jar else jar_cookies jar)"

datatype py_error = CliError string | ValueError

text \<open>
  What the outside gives \<^verbatim>\<open>_load_x_cookies\<close>: whether \<^verbatim>\<open>browser_cookie3\<close> can be imported,
  what \<^verbatim>\<open>_resolve_cookie_file\<close> does (it raises a \<^verbatim>\<open>CliError\<close> with a message, or returns a
  path or \<^verbatim>\<open>None\<close>) and what the loader does (it raises, or returns a jar).
\<close>

record browser_source =
  bc3_importable :: bool
  resolved_cookie_file :: "string + string option"
  loader_result :: "string + jar_cookie list"

definition load_x_cookies :: "string \<Rightarrow> browser_source \<Rightarrow> py_error + pydict list" where
  "load_x_cookies browser src =
     (if \<not> bc3_importable src
      then Inl (CliError ''browser_cookie3 is required. Run setup_env.sh first.'')
      else if browser \<notin> set [''chrome'', ''chromium'', ''edge'']
      then Inl (CliError (''Unsupported browser: '' @ browser))
      else case resolved_cookie_file src of
             Inl msg \<Rightarrow> Inl (CliError msg)
           | Inr cookie_file \<Rightarrow>
               (case loader_result src of
                  Inl err \<Rightarrow> Inl (CliError (''Failed loading browser cookies ('' @ browser @ ''): '' @ err))
                | Inr jar \<Rightarrow>
                    (let cookies = jar_cookies jar
                     in if cookies = []
                        then Inl (CliError ''No X/Twitter cookies found. Ensure browser profile is logged in.'')
                        else Inr cookies)))"

subsection \<open>\<^verbatim>\<open>_with_page\<close>\<close>

text \<open>
  The result is the error raised, or the cookies the new browser context holds:
  \<^verbatim>\<open>context.add_cookies(cookies)\<close> runs when \<^verbatim>\<open>cookies\<close> is not empty, so that the context
  holds exactly \<^verbatim>\<open>cookies\<close>. Only a \<^verbatim>\<open>CliError\<close> of the browser source is caught. The
  launch of the browser itself is not modelled.
\<close>

definition with_page ::
  "bool \<Rightarrow> string \<Rightarrow> browser_source \<Rightarrow> cookie_doc option \<Rightarrow> bool \<Rightarrow> bool \<Rightarrow> bool
     \<Rightarrow> py_error + pydict list" where
  "with_page playwright_importable browser src file require_session allow_browser_cookies allow_saved_session =
     (if \<not> playwright_importable
      then Inl (CliError ''playwright is required. Run setup_env.sh first.'')
      else
        case (if allow_browser_cookies then load_x_cookies browser src else Inr []) of
          Inl ValueError \<Rightarrow> Inl ValueError
        | fresh \<Rightarrow>
            (let browser_cookies = (case fresh of Inr cs \<Rightarrow> cs | Inl err \<Rightarrow> []);
                 load_error = (case fresh of Inr cs \<Rightarrow> None | Inl err \<Rightarrow> Some err);
                 saved_cookies = (if allow_saved_session then load_saved_session_cookies file else []);
                 cookies = (if browser_cookies \<noteq> [] then browser_cookies else saved_cookies)
             in if require_session \<and> cookies = []
                then (case load_error of
                        Some err \<Rightarrow> Inl err
                      | None \<Rightarrow> Inl (CliError ''No local session cookies found. Run user_login_v3 --refresh first.''))
                else Inr cookies))"

subsection \<open>\<^verbatim>\<open>_merge_cookie_sets\<close>\<close>

text \<open>
  \<^verbatim>\<open>by_key\<close> is an insertion-ordered dictionary: assigning to a key that is present
  replaces the value where it stands, a new key goes to the end.
\<close>

fun dict_set :: "('k \<times> 'v) list \<Rightarrow> 'k \<Rightarrow> 'v \<Rightarrow> ('k \<times> 'v) list" where
  "dict_set [] k v = [(k, v)]"
| "dict_set ((k', v') # d) k v = (if k' = k then (k, v) # d else (k', v') # dict_set d k v)"

type_synonym cookie_key = "string \<times> string \<times> string"

definition cookie_key :: "pydict \<Rightarrow> cookie_key" where
  "cookie_key src =
     (str_field src ''domain'', str_field src ''name'',
      py_str (py_or (dict_get src ''path'') (PStr ''/'')))"

fun merge_loop :: "(cookie_key \<times> pydict) list \<Rightarrow> pydict list \<Rightarrow> (cookie_key \<times> pydict) list" where
  "merge_loop by_key [] = by_key"
| "merge_loop by_key (src # rest) =
     (case cookie_key src of
        (domain, name, path) \<Rightarrow>
          if domain = [] \<or> name = [] then merge_loop by_key rest
          else merge_loop (dict_set by_key (domain, name, path) src) rest)"

definition merge_cookie_sets :: "pydict list \<Rightarrow> pydict list \<Rightarrow> pydict list" where
  "merge_cookie_sets primary secondary = map snd (merge_loop [] (secondary @ primary))"

subsection \<open>Cookie records with text fields\<close>



definition example_cookie :: "string \<Rightarrow> string \<Rightarrow> string \<Rightarrow> pydict" where
  "example_cookie d n v = [(''domain'', PStr d), (''name'', PStr n), (''value'', PStr v), (''path'', PStr ''/'')]"

definition example_jar_cookie :: jar_cookie where
  "example_jar_cookie =
     \<lparr>jc_domain = Some ''.x.com'', jc_name = Some ''ct0'', jc_value = Some ''c0de'',
      jc_path = None, jc_secure = None, jc_expires = Some 1900000000\<rparr>"

subsection \<open>Candidate cookie sets and the spec's resolution policy\<close>

text \<open>
  The two candidates \<^verbatim>\<open>_with_page\<close> chooses between, as it computes them: the fresh set is
  empty when the browser source is not consulted or fails, the saved set is empty when the
  persisted set is not consulted.
\<close>

definition candidate_fresh :: "bool \<Rightarrow> string \<Rightarrow> browser_source \<Rightarrow> pydict list" where
  "candidate_fresh allow_browser_cookies browser src =
     (if allow_browser_cookies
      then (case load_x_cookies browser src of Inr cs \<Rightarrow> cs | Inl err \<Rightarrow> [])
      else [])"

definition candidate_saved :: "bool \<Rightarrow> cookie_doc option \<Rightarrow> pydict list" where
  "candidate_saved allow_saved_session file =
     (if allow_saved_session then load_saved_session_cookies file else [])"

text \<open>
  The spec's policy in its own words: the fresh source, when it yields something, is used
  outright and not merged; the persisted set is used only otherwise.
\<close>

definition spec_resolve_cookies :: "pydict list \<Rightarrow> pydict list \<Rightarrow> pydict list" where
  "spec_resolve_cookies fresh persisted = (if fresh \<noteq> [] then fresh else persisted)"

definition example_source :: browser_source where
  "example_source =
     \<lparr>bc3_importable = True, resolved_cookie_file = Inr None,
      loader_result = Inr [example_jar_cookie]\<rparr>"

definition example_failing_source :: browser_source where
  "example_failing_source =
     \<lparr>bc3_importable = True, resolved_cookie_file = Inr None,
      loader_result = Inl ''database is locked''\<rparr>"

definition example_saved_doc :: cookie_doc where
  "example_saved_doc = DocList [JDict (example_cookie ''.x.com'' ''auth_token'' ''t0k''), JOther]"

subsection \<open>Keys of the merge\<close>

text \<open>
  A record takes part in the merge when its domain and its name are non-empty; the record
  a key ends up with is the last such record listed.
\<close>

definition keyed :: "pydict \<Rightarrow> bool" where
  "keyed src = (str_field src ''domain'' \<noteq> [] \<and> str_field src ''name'' \<noteq> [])"

definition last_keyed :: "cookie_key \<Rightarrow> pydict list \<Rightarrow> pydict option" where
  "last_keyed k xs = find (\<lambda>c. keyed c \<and> cookie_key c = k) (rev xs)"

section \<open>Process supervisor\<close>








subsection \<open>\<^verbatim>\<open>_run_stream_status\<close>\<close>





subsection \<open>\<^verbatim>\<open>_run_stream_start\<close>\<close>











subsection \<open>\<^verbatim>\<open>_run_stream_stop\<close>\<close>










section \<open>Properties of the harvester\<close>

lemma absorb_append: "absorb_rows seen (xs @ ys) = absorb_rows (absorb_rows seen xs) ys"
  by (induction xs arbitrary: seen) (auto simp: Let_def)

lemma filter_key_swap:
  "filter (\<lambda>x. row_key x \<noteq> k) (filter (\<lambda>r. row_key r \<notin> S) rows)
     = filter (\<lambda>r. row_key r \<notin> insert k S) rows"
  by (induction rows) auto

lemma absorb_values:
  "map snd (absorb_rows seen rows)
     = map snd seen @ first_wins (filter (\<lambda>r. row_key r \<notin> set (map fst seen)) rows)"
proof (induction rows arbitrary: seen)
  case Nil
  show ?case by simp
next
  case (Cons row rows)
  show ?case
  proof (cases "row_key row = []")
    case True
    then show ?thesis using Cons.IH [of seen] by simp
  next
    case False
    show ?thesis
    proof (cases "row_key row \<in> set (map fst seen)")
      case True
      then show ?thesis using False Cons.IH [of seen] by simp
    next
      case fresh: False
      have "map snd (absorb_rows seen (row # rows))
              = map snd (absorb_rows (seen @ [(row_key row, row)]) rows)"
        using False fresh by (simp add: Let_def)
      also have "\<dots> = map snd seen @ row #
          first_wins (filter (\<lambda>r. row_key r \<notin> insert (row_key row) (set (map fst seen))) rows)"
        using Cons.IH [of "seen @ [(row_key row, row)]"] by simp
      finally show ?thesis using False fresh by (simp add: conj_commute)
    qed
  qed
qed

lemma absorb_keys:
  "map fst (absorb_rows seen rows)
     = map fst seen @ map row_key (first_wins (filter (\<lambda>r. row_key r \<notin> set (map fst seen)) rows))"
proof (induction rows arbitrary: seen)
  case Nil
  show ?case by simp
next
  case (Cons row rows)
  show ?case
  proof (cases "row_key row = []")
    case True
    then show ?thesis using Cons.IH [of seen] by simp
  next
    case False
    show ?thesis
    proof (cases "row_key row \<in> set (map fst seen)")
      case True
      then show ?thesis using False Cons.IH [of seen] by simp
    next
      case fresh: False
      have "map fst (absorb_rows seen (row # rows))
              = map fst (absorb_rows (seen @ [(row_key row, row)]) rows)"
        using False fresh by (simp add: Let_def)
      also have "\<dots> = map fst seen @ row_key row #
          map row_key (first_wins (filter (\<lambda>r. row_key r \<notin> insert (row_key row) (set (map fst seen))) rows))"
        using Cons.IH [of "seen @ [(row_key row, row)]"] by simp
      finally show ?thesis using False fresh by (simp add: conj_commute)
    qed
  qed
qed

lemma absorb_empty_values: "map snd (absorb_rows [] rows) = first_wins rows"
  using absorb_values [of "[]" rows] by simp

lemma first_wins_length_le: "length (first_wins rs) \<le> length rs"
proof (induction rs rule: first_wins.induct)
  case 1
  show ?case by simp
next
  case (2 r rs)
  have "length (filter (\<lambda>x. row_key x \<noteq> row_key r) rs) \<le> length rs" by simp
  with 2 show ?case by (auto simp: le_SucI intro: order_trans)
qed

lemma first_wins_set: "set (first_wins rs) \<subseteq> set rs"
  by (induction rs rule: first_wins.induct) auto

lemma first_wins_keys:
  "set (map row_key (first_wins rs)) = {k. k \<noteq> [] \<and> k \<in> set (map row_key rs)}"
  by (induction rs rule: first_wins.induct) auto

lemma first_wins_distinct: "distinct (map row_key (first_wins rs))"
proof (induction rs rule: first_wins.induct)
  case 1
  show ?case by simp
next
  case (2 r rs)
  have "row_key r \<notin> set (map row_key (first_wins (filter (\<lambda>x. row_key x \<noteq> row_key r) rs)))"
    using first_wins_set [of "filter (\<lambda>x. row_key x \<noteq> row_key r) rs"] by auto
  with 2 show ?case by auto
qed

lemma first_wins_subseq: "subseq (first_wins rs) rs"
proof (induction rs rule: first_wins.induct)
  case 1
  show ?case by simp
next
  case (2 r rs)
  have f: "subseq (filter (\<lambda>x. row_key x \<noteq> row_key r) rs) rs" by simp
  show ?case
  proof (cases "row_key r = []")
    case True
    with 2 show ?thesis using subseq_drop_many [of "first_wins rs" rs "[r]"] by simp
  next
    case False
    with 2 have "subseq (first_wins (filter (\<lambda>x. row_key x \<noteq> row_key r) rs)) rs"
      using f subseq_order.trans by blast
    with False show ?thesis by simp
  qed
qed

lemma find_filter_other:
  "k \<noteq> k' \<Longrightarrow> find (\<lambda>x. row_key x = k) (filter (\<lambda>x. row_key x \<noteq> k') rs) = find (\<lambda>x. row_key x = k) rs"
  by (induction rs) auto

lemma first_wins_first:
  "r \<in> set (first_wins rs) \<Longrightarrow> find (\<lambda>x. row_key x = row_key r) rs = Some r"
proof (induction rs rule: first_wins.induct)
  case 1
  then show ?case by simp
next
  case (2 a rs)
  show ?case
  proof (cases "row_key a = []")
    case True
    with 2 have m: "r \<in> set (first_wins rs)" by simp
    then have "row_key r \<noteq> []" using first_wins_keys [of rs] by auto
    with True 2 m show ?thesis by auto
  next
    case False
    show ?thesis
    proof (cases "r = a")
      case True
      then show ?thesis by simp
    next
      case ne: False
      with False 2 have m: "r \<in> set (first_wins (filter (\<lambda>x. row_key x \<noteq> row_key a) rs))" by simp
      then have k: "row_key r \<noteq> row_key a" using first_wins_set by fastforce
      from 2 False m have "find (\<lambda>x. row_key x = row_key r) (filter (\<lambda>x. row_key x \<noteq> row_key a) rs) = Some r"
        by simp
      then show ?thesis using k by (simp add: find_filter_other) 
    qed
  qed
qed

lemma harvest_stream_0: "harvest_stream ex adv page 0 = []"
  by (simp add: harvest_stream_def)

lemma harvest_stream_Suc:
  "harvest_stream ex adv page (Suc k) = ex page @ harvest_stream ex adv (adv page) k"
proof -
  have "[0..<Suc k] = 0 # map Suc [0..<k]"
    by (simp add: upt_conv_Cons map_Suc_upt del: upt_Suc)
  then show ?thesis
    by (simp add: harvest_stream_def comp_def funpow_swap1 del: upt_Suc)
qed

lemma harvest_stream_snoc:
  "harvest_stream ex adv page (Suc k) = harvest_stream ex adv page k @ ex ((adv ^^ k) page)"
  by (simp add: harvest_stream_def)

text \<open>What the loop computes, whatever state it is entered in.\<close>

lemma scroll_loop_char:
  "scroll_loop ex adv limit n (seen, page, c) = (seen', page', c') \<Longrightarrow>
     \<exists>k\<le>n. c' = c + k
       \<and> seen' = absorb_rows seen (harvest_stream ex adv page k)
       \<and> (k < n \<longrightarrow> 0 < k \<and> limit \<le> int (length seen'))
       \<and> (\<forall>j. 0 < j \<and> j < k \<longrightarrow> int (length (absorb_rows seen (harvest_stream ex adv page j))) < limit)"
proof (induction n arbitrary: seen page c)
  case 0
  then show ?case by (simp add: harvest_stream_0)
next
  case (Suc n)
  let ?s = "absorb_rows seen (ex page)"
  show ?case
  proof (cases "limit \<le> int (length ?s)")
    case True
    with Suc.prems have r: "seen' = ?s" "c' = Suc c" by (auto simp: Let_def)
    have "Suc 0 \<le> Suc n \<and> c' = c + Suc 0
       \<and> seen' = absorb_rows seen (harvest_stream ex adv page (Suc 0))
       \<and> (Suc 0 < Suc n \<longrightarrow> 0 < Suc 0 \<and> limit \<le> int (length seen'))
       \<and> (\<forall>j. 0 < j \<and> j < Suc 0 \<longrightarrow> int (length (absorb_rows seen (harvest_stream ex adv page j))) < limit)"
      using r True by (simp add: harvest_stream_Suc harvest_stream_0)
    then show ?thesis by blast
  next
    case False
    with Suc.prems have "scroll_loop ex adv limit n (?s, adv page, Suc c) = (seen', page', c')"
      by (simp add: Let_def)
    from Suc.IH [OF this] obtain k where k: "k \<le> n" "c' = Suc c + k"
      "seen' = absorb_rows ?s (harvest_stream ex adv (adv page) k)"
      "k < n \<longrightarrow> 0 < k \<and> limit \<le> int (length seen')"
      "\<forall>j. 0 < j \<and> j < k \<longrightarrow> int (length (absorb_rows ?s (harvest_stream ex adv (adv page) j))) < limit"
      by blast
    have early: "limit \<le> int (length seen')" if "Suc k < Suc n"
    proof (cases "k = 0")
      case True
      then show ?thesis using k(4) that by simp
    next
      case False
      then show ?thesis using k(4) that by simp
    qed
    have before: "int (length (absorb_rows seen (harvest_stream ex adv page j))) < limit"
      if "0 < j" "j < Suc k" for j
    proof (cases j)
      case 0
      with that show ?thesis by simp
    next
      case (Suc i)
      show ?thesis
      proof (cases "i = 0")
        case True
        with Suc False show ?thesis by (simp add: harvest_stream_Suc harvest_stream_0)
      next
        case False
        with Suc that k(5) show ?thesis by (simp add: harvest_stream_Suc absorb_append)
      qed
    qed
    have "Suc k \<le> Suc n \<and> c' = c + Suc k
       \<and> seen' = absorb_rows seen (harvest_stream ex adv page (Suc k))
       \<and> (Suc k < Suc n \<longrightarrow> 0 < Suc k \<and> limit \<le> int (length seen'))
       \<and> (\<forall>j. 0 < j \<and> j < Suc k \<longrightarrow> int (length (absorb_rows seen (harvest_stream ex adv page j))) < limit)"
      using k(1,2,3) early before by (simp add: harvest_stream_Suc absorb_append)
    then show ?thesis by blast
  qed
qed

lemma harvest_run_facts:
  shows "harvest_cycles page ex adv limit m \<le> nat m"
    and "fst (harvest_run page ex adv limit m)
           = absorb_rows [] (harvest_stream ex adv page (harvest_cycles page ex adv limit m))"
    and "harvest_cycles page ex adv limit m < nat m \<Longrightarrow>
           0 < harvest_cycles page ex adv limit m
           \<and> limit \<le> int (length (absorb_rows [] (harvest_stream ex adv page (harvest_cycles page ex adv limit m))))"
    and "0 < j \<Longrightarrow> j < harvest_cycles page ex adv limit m \<Longrightarrow>
           int (length (absorb_rows [] (harvest_stream ex adv page j))) < limit"
proof -
  let ?k = "harvest_cycles page ex adv limit m"
  obtain seen' page' c' where run: "harvest_run page ex adv limit m = (seen', page', c')"
    by (cases "harvest_run page ex adv limit m") auto
  then have "scroll_loop ex adv limit (nat m) ([], page, 0) = (seen', page', c')"
    by (simp add: harvest_run_def)
  from scroll_loop_char [OF this] obtain k' where k': "k' \<le> nat m" "c' = 0 + k'"
    "seen' = absorb_rows [] (harvest_stream ex adv page k')"
    "k' < nat m \<longrightarrow> 0 < k' \<and> limit \<le> int (length seen')"
    "\<forall>j. 0 < j \<and> j < k' \<longrightarrow> int (length (absorb_rows [] (harvest_stream ex adv page j))) < limit"
    by blast
  have kk: "?k = k'" using run k'(2) by (simp add: harvest_cycles_def)
  show "?k \<le> nat m" using kk k'(1) by simp
  show "fst (harvest_run page ex adv limit m) = absorb_rows [] (harvest_stream ex adv page ?k)"
    using run kk k'(3) by simp
  show "0 < ?k \<and> limit \<le> int (length (absorb_rows [] (harvest_stream ex adv page ?k)))" if "?k < nat m"
    using that kk k'(3,4) by simp
  show "int (length (absorb_rows [] (harvest_stream ex adv page j))) < limit" if "0 < j" "j < ?k"
    using that kk k'(5) by simp
qed

lemma length_absorb_empty: "length (absorb_rows [] rows) = length (first_wins rows)"
  using arg_cong [OF absorb_empty_values [of rows], of length] by simp

lemma harvest_unique_first_wins:
  "harvest_unique page ex adv limit m
     = first_wins (harvest_stream ex adv page (harvest_cycles page ex adv limit m))"
  by (simp add: harvest_unique_def harvest_run_facts(2) absorb_empty_values)

lemma harvest_cycles_pos: "0 < m \<Longrightarrow> 0 < harvest_cycles page ex adv limit m"
  using harvest_run_facts(1,3) [of page ex adv limit m] by (cases "harvest_cycles page ex adv limit m < nat m") auto

lemma py_slice_to_prefix: "prefix (py_slice_to n xs) xs"
  by (simp add: py_slice_to_def take_is_prefix)

lemma nat_digits_nonempty: "nat_digits n \<noteq> []"
  by (subst nat_digits.simps) simp

lemma py_str_truthy: "truthy v \<Longrightarrow> py_str v \<noteq> []"
  by (cases v) (auto simp: nat_digits_nonempty)

lemma row_key_empty_iff: "row_key r = [] \<longleftrightarrow> \<not> truthy (dict_get r ''key'')"
  by (auto simp: row_key_def py_or_def py_str_truthy)

lemma absorb_noop:
  "\<forall>r\<in>set rows. row_key r = [] \<or> row_key r \<in> set (map fst seen) \<Longrightarrow> absorb_rows seen rows = seen"
  by (induction rows) (auto simp: Let_def)

lemma absorb_key_set:
  "set (map fst (absorb_rows [] rows)) = {k. k \<noteq> [] \<and> k \<in> set (map row_key rows)}"
  using absorb_keys [of "[]" rows] first_wins_keys [of rows] by simp

lemma in_harvest_stream:
  "r \<in> set (harvest_stream ex adv page k) \<longleftrightarrow> (\<exists>i<k. r \<in> set (ex ((adv ^^ i) page)))"
  by (auto simp: harvest_stream_def)

lemma harvest_stream_split:
  "0 < k \<Longrightarrow> harvest_stream ex adv page k = ex page @ concat (map (\<lambda>i. ex ((adv ^^ i) page)) [1..<k])"
proof -
  assume "0 < k"
  then have "[0..<k] = 0 # [1..<k]" by (subst upt_rec) simp
  then show ?thesis by (simp add: harvest_stream_def)
qed

lemma stable_keys_unique:
  assumes m: "1 \<le> m"
    and later: "\<forall>i<nat m. set (map row_key (ex ((adv ^^ i) page))) \<subseteq> insert [] (set (map row_key (ex page)))"
  shows "harvest_unique page ex adv limit m = first_wins (ex page)"
proof -
  let ?k = "harvest_cycles page ex adv limit m"
  have pos: "0 < ?k" using m by (simp add: harvest_cycles_pos)
  have le: "?k \<le> nat m" by (rule harvest_run_facts(1))
  let ?rest = "concat (map (\<lambda>i. ex ((adv ^^ i) page)) [1..<?k])"
  have "\<forall>r\<in>set ?rest. row_key r = [] \<or> row_key r \<in> set (map fst (absorb_rows [] (ex page)))"
  proof
    fix r assume "r \<in> set ?rest"
    then obtain i where i: "i < ?k" "r \<in> set (ex ((adv ^^ i) page))"
      unfolding set_concat by auto
    from i(1) le have "i < nat m" by simp
    with later have sub: "set (map row_key (ex ((adv ^^ i) page))) \<subseteq> insert [] (set (map row_key (ex page)))"
      by blast
    from i(2) have "row_key r \<in> set (map row_key (ex ((adv ^^ i) page)))" by simp
    with sub have "row_key r \<in> insert [] (set (map row_key (ex page)))" by blast
    then show "row_key r = [] \<or> row_key r \<in> set (map fst (absorb_rows [] (ex page)))"
      unfolding absorb_key_set by blast
  qed
  then have noop: "absorb_rows (absorb_rows [] (ex page)) ?rest = absorb_rows [] (ex page)"
    by (rule absorb_noop)
  have "harvest_stream ex adv page ?k = ex page @ ?rest"
    using pos by (rule harvest_stream_split)
  then have "absorb_rows [] (harvest_stream ex adv page ?k) = absorb_rows [] (ex page)"
    using noop by (simp only: absorb_append)
  then show ?thesis
    by (simp only: harvest_unique_def harvest_run_facts(2) absorb_empty_values)
qed

lemma first_wins_id:
  "distinct (map row_key rs) \<Longrightarrow> [] \<notin> set (map row_key rs) \<Longrightarrow> first_wins rs = rs"
proof (induction rs)
  case Nil
  show ?case by simp
next
  case (Cons r rs)
  from Cons.prems have "\<forall>x\<in>set rs. row_key x \<noteq> row_key r"
    by (metis distinct.simps(2) image_eqI list.simps(9) set_map)
  then have "filter (\<lambda>x. row_key x \<noteq> row_key r) rs = rs"
    by simp
  with Cons show ?case by auto
qed

text \<open>
  C2. The loop checks the number of unique rows against \<open>limit\<close> after each extraction:
  it runs \<open>k\<close> cycles, at most \<open>max_scrolls\<close>; after none of the earlier extractions was
  the limit reached; it stops before \<open>max_scrolls\<close> only with the limit reached; and it
  returns a list, never an error: the first-occurrence rows of the \<open>k\<close> extractions cut by
  \<^verbatim>\<open>[:limit]\<close>, which for \<open>limit \<ge> 0\<close> is the first \<open>limit\<close> of them. When every cycle
  brings 3 new unique rows and \<open>limit = 7\<close>, it stops after 3 cycles with 7 rows.
\<close>

theorem collect_limit_and_termination:
  "let k = harvest_cycles page ex adv limit m;
       uniq = (\<lambda>j. first_wins (harvest_stream ex adv page j));
       result = collect_with_scroll page ex adv limit m
   in k \<le> nat m
      \<and> (\<forall>j. 0 < j \<and> j < k \<longrightarrow> int (length (uniq j)) < limit)
      \<and> (k < nat m \<longrightarrow> 0 < k \<and> limit \<le> int (length (uniq k)))
      \<and> result = py_slice_to limit (uniq k)
      \<and> (0 \<le> limit \<longrightarrow> result = take (nat limit) (uniq k) \<and> int (length result) \<le> limit)
      \<and> (limit = 7 \<and> 3 \<le> m \<and> (\<forall>j\<le>3. length (uniq j) = 3 * j) \<longrightarrow> k = 3 \<and> length result = 7)"
proof -
  let ?k = "harvest_cycles page ex adv limit m"
  let ?uniq = "\<lambda>j. first_wins (harvest_stream ex adv page j)"
  let ?result = "collect_with_scroll page ex adv limit m"
  have a: "?k \<le> nat m" by (rule harvest_run_facts(1))
  have b: "\<forall>j. 0 < j \<and> j < ?k \<longrightarrow> int (length (?uniq j)) < limit"
    using harvest_run_facts(4) [of _ page ex adv limit m] by (simp add: length_absorb_empty)
  have c: "?k < nat m \<longrightarrow> 0 < ?k \<and> limit \<le> int (length (?uniq ?k))"
    using harvest_run_facts(3) [of page ex adv limit m] by (simp add: length_absorb_empty)
  have d: "?result = py_slice_to limit (?uniq ?k)"
    by (simp only: collect_with_scroll_def harvest_unique_first_wins)
  have e: "0 \<le> limit \<longrightarrow> ?result = take (nat limit) (?uniq ?k) \<and> int (length ?result) \<le> limit"
    unfolding d by (auto simp: py_slice_to_def min_def)
  have f: "?k = 3 \<and> length ?result = 7"
    if h: "limit = 7" "3 \<le> m" "\<forall>j\<le>3. length (?uniq j) = 3 * j"
  proof -
    have le3: "?k \<le> 3"
    proof (rule ccontr)
      assume "\<not> ?k \<le> 3"
      then have "int (length (?uniq 3)) < limit" using b by simp
      with h(1,3) show False by simp
    qed
    have ge3: "3 \<le> ?k"
    proof (rule ccontr)
      assume lt: "\<not> 3 \<le> ?k"
      with h(2) have "?k < nat m" by simp
      with c have "limit \<le> int (length (?uniq ?k))" by simp
      moreover have "length (?uniq ?k) = 3 * ?k" using h(3) lt by simp
      ultimately show False using h(1) lt by simp
    qed
    from le3 ge3 have k3: "?k = 3" by simp
    have "length (?uniq 3) = 9" using h(3) by simp
    moreover have "?result = py_slice_to 7 (?uniq 3)" using d k3 h(1) by simp
    ultimately have "length ?result = 7" by (simp add: py_slice_to_def)
    with k3 show ?thesis by simp
  qed
  show ?thesis unfolding Let_def using a b c d e f by blast
qed

theorem collect_limit_and_termination_witness:
  "harvest_cycles (0::nat) example_feed Suc 7 14 = 3
   \<and> length (collect_with_scroll (0::nat) example_feed Suc 7 14) = 7
   \<and> length (first_wins (harvest_stream example_feed Suc (0::nat) 3)) = 9"
proof -
  have len: "length (first_wins (harvest_stream example_feed Suc (0::nat) j)) = 3 * j" if "j \<le> 3" for j
  proof -
    from that have "j = 0 \<or> j = 1 \<or> j = 2 \<or> j = 3" by arith
    moreover have "length (first_wins (harvest_stream example_feed Suc (0::nat) 0)) = 3 * 0" by code_simp
    moreover have "length (first_wins (harvest_stream example_feed Suc (0::nat) 1)) = 3 * 1" by code_simp
    moreover have "length (first_wins (harvest_stream example_feed Suc (0::nat) 2)) = 3 * 2" by code_simp
    moreover have "length (first_wins (harvest_stream example_feed Suc (0::nat) 3)) = 3 * 3" by code_simp
    ultimately show ?thesis by fastforce
  qed
  have hyp: "(7::int) = 7 \<and> (3::int) \<le> 14
      \<and> (\<forall>j\<le>3. length (first_wins (harvest_stream example_feed Suc (0::nat) j)) = 3 * j)"
    using len by simp
  from collect_limit_and_termination [of "0::nat" example_feed Suc 7 14] hyp
  have "harvest_cycles (0::nat) example_feed Suc 7 14 = 3
        \<and> length (collect_with_scroll (0::nat) example_feed Suc 7 14) = 7"
    unfolding Let_def by blast
  moreover have "length (first_wins (harvest_stream example_feed Suc (0::nat) 3)) = 9"
    using len [of 3] by simp
  ultimately show ?thesis by simp
qed

text \<open>
  C3. Deduplication is first-occurrence-wins and keyless rows are discarded: the unique
  rows are the spec's \<open>first_wins\<close> of everything extracted; their keys are distinct and
  non-empty; each is the first extracted row with its key, so no later row replaced it;
  every non-empty key extracted is kept; a row with no \<^verbatim>\<open>key\<close> or an empty one is not
  kept; the rows stand in extraction order, and the result is a prefix of them.
\<close>

theorem collect_first_occurrence_wins:
  "let k = harvest_cycles page ex adv limit m;
       stream = harvest_stream ex adv page k;
       unique = harvest_unique page ex adv limit m;
       result = collect_with_scroll page ex adv limit m
   in unique = first_wins stream
      \<and> distinct (map row_key unique)
      \<and> (\<forall>r\<in>set unique. truthy (dict_get r ''key'') \<and> row_key r \<noteq> []
            \<and> find (\<lambda>x. row_key x = row_key r) stream = Some r)
      \<and> (\<forall>r\<in>set stream. row_key r \<noteq> [] \<longrightarrow> row_key r \<in> set (map row_key unique))
      \<and> (\<forall>r\<in>set stream. map_of r ''key'' = None \<or> map_of r ''key'' = Some (PStr []) \<longrightarrow> r \<notin> set unique)
      \<and> subseq unique stream
      \<and> prefix result unique"
proof -
  let ?k = "harvest_cycles page ex adv limit m"
  let ?S = "harvest_stream ex adv page ?k"
  let ?U = "harvest_unique page ex adv limit m"
  have u: "?U = first_wins ?S" by (rule harvest_unique_first_wins)
  have d: "distinct (map row_key ?U)" unfolding u by (rule first_wins_distinct)
  have nonempty: "row_key r \<noteq> []" if "r \<in> set ?U" for r
  proof -
    from that have "row_key r \<in> set (map row_key (first_wins ?S))" unfolding u by simp
    then show ?thesis unfolding first_wins_keys by simp
  qed
  have first: "\<forall>r\<in>set ?U. truthy (dict_get r ''key'') \<and> row_key r \<noteq> []
      \<and> find (\<lambda>x. row_key x = row_key r) ?S = Some r"
  proof
    fix r assume r: "r \<in> set ?U"
    then have "find (\<lambda>x. row_key x = row_key r) ?S = Some r"
      unfolding u by (rule first_wins_first)
    moreover have "row_key r \<noteq> []" using r by (rule nonempty)
    moreover from this have "truthy (dict_get r ''key'')" by (simp add: row_key_empty_iff)
    ultimately show "truthy (dict_get r ''key'') \<and> row_key r \<noteq> []
      \<and> find (\<lambda>x. row_key x = row_key r) ?S = Some r" by simp
  qed
  have complete: "\<forall>r\<in>set ?S. row_key r \<noteq> [] \<longrightarrow> row_key r \<in> set (map row_key ?U)"
    unfolding u first_wins_keys by simp
  have keyless: "\<forall>r\<in>set ?S. map_of r ''key'' = None \<or> map_of r ''key'' = Some (PStr []) \<longrightarrow> r \<notin> set ?U"
  proof (intro ballI impI)
    fix r assume "map_of r ''key'' = None \<or> map_of r ''key'' = Some (PStr [])"
    then have "\<not> truthy (dict_get r ''key'')" by (auto simp: dict_get_def)
    then have "row_key r = []" by (simp add: row_key_empty_iff)
    then show "r \<notin> set ?U" using nonempty by blast
  qed
  have s: "subseq ?U ?S" unfolding u by (rule first_wins_subseq)
  have p: "prefix (collect_with_scroll page ex adv limit m) ?U"
    unfolding collect_with_scroll_def by (rule py_slice_to_prefix)
  show ?thesis unfolding Let_def using u d first complete keyless s p by blast
qed

theorem collect_first_occurrence_wins_witness:
  "collect_with_scroll (0::nat) example_dups Suc 5 2 = [example_row ''a'' 0, example_row ''b'' 0]
   \<and> example_row ''a'' 99 \<in> set (harvest_stream example_dups Suc (0::nat) (harvest_cycles (0::nat) example_dups Suc 5 2))
   \<and> [(''likes'', PInt 7)] \<in> set (harvest_stream example_dups Suc (0::nat) (harvest_cycles (0::nat) example_dups Suc 5 2))
   \<and> [(''likes'', PInt 7)] \<notin> set (harvest_unique (0::nat) example_dups Suc 5 2)
   \<and> find (\<lambda>x. row_key x = row_key (example_row ''a'' 0))
         (harvest_stream example_dups Suc (0::nat) (harvest_cycles (0::nat) example_dups Suc 5 2))
       = Some (example_row ''a'' 0)
   \<and> row_key (example_row ''a'' 99) \<in> set (map row_key (harvest_unique (0::nat) example_dups Suc 5 2))"
proof -
  let ?S = "harvest_stream example_dups Suc (0::nat) (harvest_cycles (0::nat) example_dups Suc 5 2)"
  let ?U = "harvest_unique (0::nat) example_dups Suc 5 2"
  have res: "collect_with_scroll (0::nat) example_dups Suc 5 2 = [example_row ''a'' 0, example_row ''b'' 0]"
    by code_simp
  have inU: "example_row ''a'' 0 \<in> set ?U" by code_simp
  have inS: "example_row ''a'' 99 \<in> set ?S" by code_simp
  have inS2: "[(''likes'', PInt 7)] \<in> set ?S" by code_simp
  have k1: "row_key (example_row ''a'' 99) \<noteq> []" by code_simp
  have k2: "map_of [(''likes'', PInt 7)] ''key'' = None" by simp
  note inst = collect_first_occurrence_wins [of "0::nat" example_dups Suc 5 2, unfolded Let_def]
  from inst inU have a: "find (\<lambda>x. row_key x = row_key (example_row ''a'' 0)) ?S = Some (example_row ''a'' 0)"
    by blast
  from inst inS k1 have b: "row_key (example_row ''a'' 99) \<in> set (map row_key ?U)" by blast
  from inst inS2 k2 have c: "[(''likes'', PInt 7)] \<notin> set ?U" by blast
  show ?thesis using res inS inS2 a b c by simp
qed

lemma harvest_unique_no_cycles: "m \<le> 0 \<Longrightarrow> harvest_unique page ex adv limit m = []"
  by (simp add: harvest_unique_def harvest_run_def)

text \<open>
  C4. For a static view (the extractor returns the same rows whatever the view's state)
  two calls with the same limit and cycle budget return the same list, from whatever
  state an earlier call left the view in: each call starts from the empty mapping. More
  generally, when the later cycles bring no key the first cycle did not show (their
  payloads may differ), the result is the first cycle's first-occurrence rows cut by the
  limit; when those rows have distinct non-empty keys and fit the limit (5 rows, limit
  10, 3 cycles) the result is exactly the first cycle's rows, in their order.
\<close>

theorem collect_static_view_deterministic:
  "((\<forall>p. ex p = rows) \<longrightarrow>
       collect_with_scroll page1 ex adv1 limit m = collect_with_scroll page2 ex adv2 limit m)
   \<and> (1 \<le> m \<and> (\<forall>i<nat m. set (map row_key (ex ((adv ^^ i) page))) \<subseteq> insert [] (set (map row_key (ex page)))) \<longrightarrow>
         harvest_cycles page ex adv limit m \<le> nat m
         \<and> collect_with_scroll page ex adv limit m = py_slice_to limit (first_wins (ex page))
         \<and> (distinct (map row_key (ex page)) \<and> [] \<notin> set (map row_key (ex page)) \<and> int (length (ex page)) \<le> limit \<longrightarrow>
               collect_with_scroll page ex adv limit m = ex page))"
proof -
  have stable: "collect_with_scroll pg ex ad limit m = py_slice_to limit (first_wins (ex pg))"
    if "1 \<le> m" "\<forall>i<nat m. set (map row_key (ex ((ad ^^ i) pg))) \<subseteq> insert [] (set (map row_key (ex pg)))"
    for pg ad
    using stable_keys_unique [OF that] by (simp add: collect_with_scroll_def)
  have static: "collect_with_scroll page1 ex adv1 limit m = collect_with_scroll page2 ex adv2 limit m"
    if st: "\<forall>p. ex p = rows"
  proof (cases "1 \<le> m")
    case True
    have "collect_with_scroll page1 ex adv1 limit m = py_slice_to limit (first_wins (ex page1))"
      using True st by (intro stable) auto
    moreover have "collect_with_scroll page2 ex adv2 limit m = py_slice_to limit (first_wins (ex page2))"
      using True st by (intro stable) auto
    ultimately show ?thesis using st by simp
  next
    case False
    then show ?thesis by (simp add: collect_with_scroll_def harvest_unique_no_cycles)
  qed
  have whole: "collect_with_scroll page ex adv limit m = ex page"
    if "collect_with_scroll page ex adv limit m = py_slice_to limit (first_wins (ex page))"
      "distinct (map row_key (ex page))" "[] \<notin> set (map row_key (ex page))" "int (length (ex page)) \<le> limit"
  proof -
    have "first_wins (ex page) = ex page" using that(2,3) by (rule first_wins_id)
    moreover have "0 \<le> limit" using that(4) by simp
    ultimately show ?thesis using that(1,4) by (simp add: py_slice_to_def)
  qed
  have cyc: "harvest_cycles page ex adv limit m \<le> nat m" by (rule harvest_run_facts(1))
  show ?thesis using stable static whole cyc by blast
qed

theorem collect_static_view_deterministic_witness:
  "collect_with_scroll (0::nat) (\<lambda>p. example_static) Suc 10 3 = example_static
   \<and> collect_with_scroll (0::nat) (\<lambda>p. example_static) Suc 10 3
       = collect_with_scroll (3::nat) (\<lambda>p. example_static) Suc 10 3
   \<and> collect_with_scroll (0::nat) example_drift Suc 10 3 = example_drift 0
   \<and> harvest_cycles (0::nat) example_drift Suc 10 3 \<le> 3
   \<and> example_drift 1 \<noteq> example_drift 0"
proof -
  have keys_static: "map row_key example_static = [''a'', ''b'', ''c'', ''d'', ''e'']" by code_simp
  have keys_drift: "map row_key (example_drift p) = [''a'', ''b'', ''c'', ''d'', ''e'']" for p
    by (simp add: example_drift_def example_row_def row_key_def dict_get_def py_or_def)
  have h1: "(1::int) \<le> 3 \<and> (\<forall>i<nat 3. set (map row_key ((\<lambda>p. example_static) ((Suc ^^ i) (0::nat))))
              \<subseteq> insert [] (set (map row_key ((\<lambda>p. example_static) (0::nat)))))"
    by auto
  have h2: "distinct (map row_key ((\<lambda>p. example_static) (0::nat))) \<and> [] \<notin> set (map row_key ((\<lambda>p. example_static) (0::nat)))
              \<and> int (length ((\<lambda>p. example_static) (0::nat))) \<le> 10"
    using keys_static by (simp add: example_static_def)
  have a: "collect_with_scroll (0::nat) (\<lambda>p. example_static) Suc 10 3 = example_static"
    using collect_static_view_deterministic [of "\<lambda>p. example_static" example_static 0 Suc 10 3 0 Suc Suc 0] h1 h2
    by blast
  have b: "collect_with_scroll (0::nat) (\<lambda>p. example_static) Suc 10 3
             = collect_with_scroll (3::nat) (\<lambda>p. example_static) Suc 10 3"
    using collect_static_view_deterministic [of "\<lambda>p. example_static" example_static 0 Suc 10 3 3 Suc Suc 0]
    by blast
  have h3: "(1::int) \<le> 3 \<and> (\<forall>i<nat 3. set (map row_key (example_drift ((Suc ^^ i) (0::nat))))
              \<subseteq> insert [] (set (map row_key (example_drift (0::nat)))))"
    by (simp add: keys_drift)
  have h4: "distinct (map row_key (example_drift 0)) \<and> [] \<notin> set (map row_key (example_drift 0))
              \<and> int (length (example_drift 0)) \<le> 10"
    by (simp add: keys_drift) (simp add: example_drift_def)
  have "collect_with_scroll (0::nat) example_drift Suc 10 3 = example_drift 0
           \<and> harvest_cycles (0::nat) example_drift Suc 10 3 \<le> nat 3"
    using collect_static_view_deterministic [of example_drift "[]" 0 Suc 10 3 0 Suc Suc 0] h3 h4
    by blast
  then have c: "collect_with_scroll (0::nat) example_drift Suc 10 3 = example_drift 0
           \<and> harvest_cycles (0::nat) example_drift Suc 10 3 \<le> 3"
    by simp
  have d: "example_drift 1 \<noteq> example_drift 0" by (simp add: example_drift_def example_row_def)
  show ?thesis using a b c d by simp
qed

section \<open>Properties of the limit clamp\<close>

text \<open>
  C10, as stated, fails for the replies endpoint: it clamps \<^verbatim>\<open>--limit 500\<close> to 200 and
  then calls the harvester with 202, above its cap.
\<close>

theorem replies_harvest_limit_exceeds_cap:
  "harvest_limit TweetReplies 500 = 202 \<and> limit_cap TweetReplies = 200
   \<and> \<not> harvest_limit TweetReplies 500 \<le> limit_cap TweetReplies
   \<and> harvest_limit TweetReplies 500 \<noteq> max 1 (min 500 (limit_cap TweetReplies))"
  by (simp add: clamped_limit_def)

text \<open>
  C10, amended. For every integer \<^verbatim>\<open>--limit\<close>, every paginated read endpoint other than
  the replies endpoint calls the harvester with \<open>max 1 (min limit cap)\<close>, which lies between
  1 and its cap; the caps are 200 for user tweets and both searches, 300 for notifications
  and 500 for follower and following listings. The replies endpoint calls the harvester
  with that clamp (cap 200) plus 2, between 3 and 202, and cuts the replies it returns to
  the clamp.
\<close>

theorem harvest_limit_clamped:
  "(e \<noteq> TweetReplies \<longrightarrow>
      harvest_limit e arg_limit = max 1 (min arg_limit (limit_cap e))
      \<and> 1 \<le> harvest_limit e arg_limit \<and> harvest_limit e arg_limit \<le> limit_cap e
      \<and> endpoint_harvest e arg_limit page ex adv
          = collect_with_scroll page ex adv (max 1 (min arg_limit (limit_cap e))) (harvest_max_scrolls e))
   \<and> harvest_limit TweetReplies arg_limit = max 1 (min arg_limit 200) + 2
   \<and> 3 \<le> harvest_limit TweetReplies arg_limit \<and> harvest_limit TweetReplies arg_limit \<le> 202
   \<and> int (length (tweet_replies_rows tweet_id arg_limit page ex adv)) \<le> max 1 (min arg_limit 200)
   \<and> limit_cap UserLastTweets = 200 \<and> limit_cap SearchUser = 200 \<and> limit_cap AdvancedSearch = 200
   \<and> limit_cap NotificationsList = 300 \<and> limit_cap UserConnections = 500"
proof -
  have a: "harvest_limit e arg_limit = max 1 (min arg_limit (limit_cap e))" if "e \<noteq> TweetReplies"
    using that by (cases e) (simp_all add: clamped_limit_def)
  have b: "1 \<le> max 1 (min arg_limit (limit_cap e)) \<and> max 1 (min arg_limit (limit_cap e)) \<le> limit_cap e"
    by (cases e) simp_all
  have c: "endpoint_harvest e arg_limit page ex adv
          = collect_with_scroll page ex adv (max 1 (min arg_limit (limit_cap e))) (harvest_max_scrolls e)"
    if "e \<noteq> TweetReplies"
    using a [OF that] by (simp add: endpoint_harvest_def)
  have d: "harvest_limit TweetReplies arg_limit = max 1 (min arg_limit 200) + 2"
    by (simp add: clamped_limit_def)
  have e: "int (length (tweet_replies_rows tweet_id arg_limit page ex adv)) \<le> max 1 (min arg_limit 200)"
    by (auto simp: tweet_replies_rows_def clamped_limit_def py_slice_to_def)
  show ?thesis using a b c d e by auto
qed

theorem harvest_limit_clamped_witness:
  "NotificationsList \<noteq> TweetReplies
   \<and> harvest_limit NotificationsList (- 5) = 1
   \<and> harvest_limit NotificationsList 0 = 1
   \<and> harvest_limit NotificationsList 1000 = 300
   \<and> harvest_limit UserConnections 1000 \<le> 500
   \<and> 1 \<le> harvest_limit UserLastTweets 0"
proof -
  have n: "NotificationsList \<noteq> TweetReplies" "UserConnections \<noteq> TweetReplies"
    "UserLastTweets \<noteq> TweetReplies" by simp_all
  have "harvest_limit NotificationsList (- 5) = max 1 (min (- 5) (limit_cap NotificationsList))"
    using harvest_limit_clamped [of NotificationsList "- 5" "0::nat" "\<lambda>p. []" Suc "[]"] n(1) by blast
  then have a: "harvest_limit NotificationsList (- 5) = 1" by simp
  have "harvest_limit NotificationsList 0 = max 1 (min 0 (limit_cap NotificationsList))"
    using harvest_limit_clamped [of NotificationsList 0 "0::nat" "\<lambda>p. []" Suc "[]"] n(1) by blast
  then have b: "harvest_limit NotificationsList 0 = 1" by simp
  have "harvest_limit NotificationsList 1000 = max 1 (min 1000 (limit_cap NotificationsList))"
    using harvest_limit_clamped [of NotificationsList 1000 "0::nat" "\<lambda>p. []" Suc "[]"] n(1) by blast
  then have c: "harvest_limit NotificationsList 1000 = 300" by simp
  have "harvest_limit UserConnections 1000 \<le> limit_cap UserConnections"
    using harvest_limit_clamped [of UserConnections 1000 "0::nat" "\<lambda>p. []" Suc "[]"] n(2) by blast
  then have d: "harvest_limit UserConnections 1000 \<le> 500" by simp
  have e: "1 \<le> harvest_limit UserLastTweets 0"
    using harvest_limit_clamped [of UserLastTweets 0 "0::nat" "\<lambda>p. []" Suc "[]"] n(3) by blast
  show ?thesis using n(1) a b c d e by blast
qed

section \<open>Properties of the session cookies\<close>





lemma str_field_empty_iff: "str_field item k = [] \<longleftrightarrow> \<not> truthy (dict_get item k)"
  by (auto simp: str_field_def py_or_def py_str_truthy)











lemma jar_cookies_nonempty_or: "load_x_cookies browser src = Inr cs \<Longrightarrow> cs \<noteq> []"
  by (auto simp: load_x_cookies_def Let_def split: if_splits sum.splits)

lemma load_x_cookies_error: "load_x_cookies browser src = Inl err \<Longrightarrow> \<exists>msg. err = CliError msg"
  by (auto simp: load_x_cookies_def Let_def split: if_splits sum.splits)

lemma with_page_resolves:
  "with_page True browser src file req ab asv
     = (if req \<and> candidate_fresh ab browser src = [] \<and> candidate_saved asv file = []
        then (case (if ab then load_x_cookies browser src else Inr []) of
                Inl err \<Rightarrow> Inl err
              | Inr cs \<Rightarrow> Inl (CliError ''No local session cookies found. Run user_login_v3 --refresh first.''))
        else Inr (spec_resolve_cookies (candidate_fresh ab browser src) (candidate_saved asv file)))"
proof (cases "if ab then load_x_cookies browser src else Inr []")
  case (Inl err)
  then have ab: "ab" and l: "load_x_cookies browser src = Inl err" by (auto split: if_splits)
  from load_x_cookies_error [OF l] obtain msg where "err = CliError msg" by blast
  with ab l show ?thesis
    by (simp add: with_page_def candidate_fresh_def candidate_saved_def spec_resolve_cookies_def Let_def)
next
  case (Inr cs)
  then show ?thesis
    by (auto simp: with_page_def candidate_fresh_def candidate_saved_def spec_resolve_cookies_def Let_def
        split: if_splits)
qed

text \<open>
  C1. \<^verbatim>\<open>_with_page\<close> refines the spec's policy on its two candidate sets and never
  merges: a session it opens holds exactly one of the candidates; it holds the fresh set
  whenever the browser source yields one (which is then non-empty), whatever the persisted
  set is; when the fresh source fails or is not consulted it holds exactly the persisted
  candidate, and only when both are empty and a session is required is there no session
  but a \<^verbatim>\<open>CliError\<close>.
\<close>

theorem with_page_prefers_fresh_cookies:
  "(with_page True browser src file req ab asv = Inr cookies \<longrightarrow>
      cookies = spec_resolve_cookies (candidate_fresh ab browser src) (candidate_saved asv file)
      \<and> (cookies = candidate_fresh ab browser src \<or> cookies = candidate_saved asv file))
   \<and> (candidate_fresh ab browser src \<noteq> [] \<longrightarrow>
        with_page True browser src file req ab asv = Inr (candidate_fresh ab browser src))
   \<and> (candidate_fresh ab browser src = [] \<and> (candidate_saved asv file \<noteq> [] \<or> \<not> req) \<longrightarrow>
        with_page True browser src file req ab asv = Inr (candidate_saved asv file))
   \<and> (candidate_fresh ab browser src = [] \<and> candidate_saved asv file = [] \<and> req \<longrightarrow>
        (\<exists>msg. with_page True browser src file req ab asv = Inl (CliError msg)))
   \<and> (load_x_cookies browser src = Inr fresh \<longrightarrow>
        fresh \<noteq> [] \<and> with_page True browser src file req True asv = Inr fresh)
   \<and> (load_x_cookies browser src = Inl err \<longrightarrow>
        with_page True browser src file False True True = Inr (load_saved_session_cookies file)
        \<and> (load_saved_session_cookies file \<noteq> [] \<longrightarrow>
             with_page True browser src file req True True = Inr (load_saved_session_cookies file)))"
proof -
  note r = with_page_resolves [of browser src "file" req ab asv]
  have a: "cookies = spec_resolve_cookies (candidate_fresh ab browser src) (candidate_saved asv file)
      \<and> (cookies = candidate_fresh ab browser src \<or> cookies = candidate_saved asv file)"
    if "with_page True browser src file req ab asv = Inr cookies"
    using that r by (auto simp: spec_resolve_cookies_def split: if_splits sum.splits)
  have b: "with_page True browser src file req ab asv = Inr (candidate_fresh ab browser src)"
    if "candidate_fresh ab browser src \<noteq> []"
    using that r by (simp add: spec_resolve_cookies_def)
  have c: "with_page True browser src file req ab asv = Inr (candidate_saved asv file)"
    if "candidate_fresh ab browser src = [] \<and> (candidate_saved asv file \<noteq> [] \<or> \<not> req)"
    using that r by (auto simp: spec_resolve_cookies_def)
  have d: "\<exists>msg. with_page True browser src file req ab asv = Inl (CliError msg)"
    if h: "candidate_fresh ab browser src = [] \<and> candidate_saved asv file = [] \<and> req"
  proof (cases "if ab then load_x_cookies browser src else Inr []")
    case (Inl e)
    then have "load_x_cookies browser src = Inl e" by (auto split: if_splits)
    from load_x_cookies_error [OF this] obtain msg where "e = CliError msg" by blast
    with Inl h r show ?thesis by simp
  next
    case (Inr cs)
    with h r show ?thesis by simp
  qed
  have e: "fresh \<noteq> [] \<and> with_page True browser src file req True asv = Inr fresh"
    if l: "load_x_cookies browser src = Inr fresh"
  proof -
    have ne: "fresh \<noteq> []" using l by (rule jar_cookies_nonempty_or)
    have "candidate_fresh True browser src = fresh" using l by (simp add: candidate_fresh_def)
    with ne show ?thesis
      using with_page_resolves [of browser src "file" req True asv] by (simp add: spec_resolve_cookies_def)
  qed
  have f: "with_page True browser src file False True True = Inr (load_saved_session_cookies file)
        \<and> (load_saved_session_cookies file \<noteq> [] \<longrightarrow>
             with_page True browser src file req True True = Inr (load_saved_session_cookies file))"
    if l: "load_x_cookies browser src = Inl err"
  proof -
    have cf: "candidate_fresh True browser src = []" using l by (simp add: candidate_fresh_def)
    have cs: "candidate_saved True file = load_saved_session_cookies file" by (simp add: candidate_saved_def)
    show ?thesis
      using with_page_resolves [of browser src "file" False True True]
        with_page_resolves [of browser src "file" req True True] cf cs
      by (simp add: spec_resolve_cookies_def)
  qed
  show ?thesis using a b c d e f by blast
qed

theorem with_page_prefers_fresh_cookies_witness:
  "with_page True ''chrome'' example_source (Some example_saved_doc) True True True
     = Inr [jar_cookie_dict example_jar_cookie]
   \<and> with_page True ''chrome'' example_failing_source (Some example_saved_doc) True True True
     = Inr [example_cookie ''.x.com'' ''auth_token'' ''t0k'']
   \<and> load_saved_session_cookies (Some example_saved_doc) = [example_cookie ''.x.com'' ''auth_token'' ''t0k'']
   \<and> load_x_cookies ''chrome'' example_source = Inr [jar_cookie_dict example_jar_cookie]"
proof -
  have fresh: "load_x_cookies ''chrome'' example_source = Inr [jar_cookie_dict example_jar_cookie]"
    by code_simp
  have fail: "load_x_cookies ''chrome'' example_failing_source
      = Inl (CliError ''Failed loading browser cookies (chrome): database is locked'')"
    by code_simp
  have saved: "load_saved_session_cookies (Some example_saved_doc) = [example_cookie ''.x.com'' ''auth_token'' ''t0k'']"
    by code_simp
  have a: "with_page True ''chrome'' example_source (Some example_saved_doc) True True True
     = Inr [jar_cookie_dict example_jar_cookie]"
    using with_page_prefers_fresh_cookies [of "''chrome''" example_source "Some example_saved_doc" True True True
        "[]" "[jar_cookie_dict example_jar_cookie]" ValueError] fresh
    by blast
  have b: "with_page True ''chrome'' example_failing_source (Some example_saved_doc) True True True
     = Inr [example_cookie ''.x.com'' ''auth_token'' ''t0k'']"
    using with_page_prefers_fresh_cookies [of "''chrome''" example_failing_source "Some example_saved_doc" True True True
        "[]" "[]" "CliError ''Failed loading browser cookies (chrome): database is locked''"] fail saved
    by simp
  show ?thesis using a b saved fresh by blast
qed

lemma map_of_dict_set: "map_of (dict_set d k v) k' = (if k' = k then Some v else map_of d k')"
  by (induction d k v rule: dict_set.induct) auto

lemma keys_dict_set: "fst ` set (dict_set d k v) = insert k (fst ` set d)"
  by (induction d k v rule: dict_set.induct) auto

lemma distinct_dict_set: "distinct (map fst d) \<Longrightarrow> distinct (map fst (dict_set d k v))"
  by (induction d k v rule: dict_set.induct) (auto simp: keys_dict_set)

lemma set_dict_set: "set (dict_set d k v) \<subseteq> insert (k, v) (set d)"
  by (induction d k v rule: dict_set.induct) auto

lemma find_snoc:
  "find P (xs @ [x]) = (case find P xs of Some y \<Rightarrow> Some y | None \<Rightarrow> (if P x then Some x else None))"
  by (induction xs) auto

lemma find_app:
  "find P (xs @ ys) = (case find P xs of Some y \<Rightarrow> Some y | None \<Rightarrow> find P ys)"
  by (induction xs) auto

lemma last_keyed_Cons:
  "last_keyed k (x # xs)
     = (case last_keyed k xs of Some y \<Rightarrow> Some y | None \<Rightarrow> (if keyed x \<and> cookie_key x = k then Some x else None))"
  by (simp add: last_keyed_def find_snoc)

lemma last_keyed_append:
  "last_keyed k (xs @ ys) = (case last_keyed k ys of Some y \<Rightarrow> Some y | None \<Rightarrow> last_keyed k xs)"
  by (simp add: last_keyed_def find_app split: option.split)

lemma keyed_cookie_key: "keyed src \<longleftrightarrow> fst (cookie_key src) \<noteq> [] \<and> fst (snd (cookie_key src)) \<noteq> []"
  by (simp add: keyed_def cookie_key_def)

lemma merge_loop_step:
  "merge_loop by_key (src # rest)
     = (if keyed src then merge_loop (dict_set by_key (cookie_key src) src) rest else merge_loop by_key rest)"
  by (cases "cookie_key src") (auto simp: keyed_cookie_key)

lemma merge_loop_lookup:
  "map_of (merge_loop d xs) k = (case last_keyed k xs of Some c \<Rightarrow> Some c | None \<Rightarrow> map_of d k)"
proof (induction xs arbitrary: d)
  case Nil
  show ?case by (simp add: last_keyed_def)
next
  case (Cons x xs)
  show ?case
    by (simp only: merge_loop_step Cons.IH last_keyed_Cons map_of_dict_set split: option.split if_split)
       auto
qed

lemma merge_loop_distinct: "distinct (map fst d) \<Longrightarrow> distinct (map fst (merge_loop d xs))"
proof (induction xs arbitrary: d)
  case Nil
  then show ?case by simp
next
  case (Cons x xs)
  then show ?case by (simp only: merge_loop_step distinct_dict_set split: if_split) simp
qed

lemma merge_loop_entries:
  "\<forall>(k, c)\<in>set d. cookie_key c = k \<and> keyed c \<and> c \<in> S \<Longrightarrow> set xs \<subseteq> S \<Longrightarrow>
     \<forall>(k, c)\<in>set (merge_loop d xs). cookie_key c = k \<and> keyed c \<and> c \<in> S"
proof (induction xs arbitrary: d)
  case Nil
  then show ?case by simp
next
  case (Cons x xs)
  show ?case
  proof (cases "keyed x")
    case True
    have "\<forall>(k, c)\<in>set (dict_set d (cookie_key x) x). cookie_key c = k \<and> keyed c \<and> c \<in> S"
      using Cons.prems True set_dict_set [of d "cookie_key x" x] by auto
    then show ?thesis using Cons.IH [of "dict_set d (cookie_key x) x"] Cons.prems(2) True
      by (simp only: merge_loop_step) simp
  next
    case False
    then show ?thesis using Cons.IH [of d] Cons.prems by (simp only: merge_loop_step) simp
  qed
qed

lemma find_values_map_of:
  "distinct (map fst d) \<Longrightarrow> \<forall>(k, c)\<in>set d. key c = k \<Longrightarrow>
     find (\<lambda>c. key c = k) (map snd d) = map_of d k"
proof (induction d)
  case Nil
  show ?case by simp
next
  case (Cons a d)
  then show ?case by (cases a) auto
qed


text \<open>
  C9, as stated, fails for a record whose domain is empty: its key is present in one set
  only, and the merge drops it.
\<close>

theorem merge_drops_record_without_domain:
  "merge_cookie_sets [example_cookie [] ''sid'' ''v1''] [] = []
   \<and> cookie_key (example_cookie [] ''sid'' ''v1'') = ([], ''sid'', ''/'')"
  by (simp add: merge_cookie_sets_def cookie_key_def example_cookie_def str_field_def dict_get_def py_or_def)

text \<open>
  C9, amended. The merge is keyed by (domain, name, path) over the records whose domain
  and name are non-empty; the others are skipped. The merged keys are distinct; with the
  fresh set as \<open>primary\<close> (listed after the saved set), a key maps to the last keyed record
  of the fresh set that has it, and otherwise to the last such record of the saved set;
  a key is in the result exactly when a keyed record of either set has it.
\<close>

theorem merge_later_listed_wins:
  "distinct (map cookie_key (merge_cookie_sets primary secondary))
   \<and> (\<forall>c\<in>set (merge_cookie_sets primary secondary). keyed c \<and> (c \<in> set primary \<or> c \<in> set secondary))
   \<and> find (\<lambda>c. cookie_key c = k) (merge_cookie_sets primary secondary)
        = (case last_keyed k primary of Some c \<Rightarrow> Some c | None \<Rightarrow> last_keyed k secondary)
   \<and> (k \<in> set (map cookie_key (merge_cookie_sets primary secondary))
        \<longleftrightarrow> (\<exists>c\<in>set primary \<union> set secondary. keyed c \<and> cookie_key c = k))"
proof -
  let ?d = "merge_loop [] (secondary @ primary)"
  let ?m = "merge_cookie_sets primary secondary"
  have dist: "distinct (map fst ?d)" by (rule merge_loop_distinct) simp
  have ent: "\<forall>(k, c)\<in>set ?d. cookie_key c = k \<and> keyed c \<and> c \<in> set (secondary @ primary)"
    by (rule merge_loop_entries) simp_all
  have keys: "map cookie_key ?m = map fst ?d"
    using ent by (auto simp: merge_cookie_sets_def)
  have a: "distinct (map cookie_key ?m)" using dist keys by simp
  have b: "\<forall>c\<in>set ?m. keyed c \<and> (c \<in> set primary \<or> c \<in> set secondary)"
    using ent by (auto simp: merge_cookie_sets_def)
  have "\<forall>(k, c)\<in>set ?d. cookie_key c = k" using ent by auto
  with dist have "find (\<lambda>c. cookie_key c = k) (map snd ?d) = map_of ?d k"
    by (rule find_values_map_of)
  then have c: "find (\<lambda>c. cookie_key c = k) ?m
        = (case last_keyed k primary of Some c \<Rightarrow> Some c | None \<Rightarrow> last_keyed k secondary)"
    by (simp add: merge_cookie_sets_def merge_loop_lookup last_keyed_append split: option.split)
  have d: "k \<in> set (map cookie_key ?m) \<longleftrightarrow> (\<exists>c\<in>set primary \<union> set secondary. keyed c \<and> cookie_key c = k)"
  proof
    assume "k \<in> set (map cookie_key ?m)"
    then obtain c where "c \<in> set ?m" "cookie_key c = k" by auto
    with b show "\<exists>c\<in>set primary \<union> set secondary. keyed c \<and> cookie_key c = k" by auto
  next
    assume "\<exists>c\<in>set primary \<union> set secondary. keyed c \<and> cookie_key c = k"
    then obtain c where c: "c \<in> set (rev (secondary @ primary))" "keyed c \<and> cookie_key c = k" by auto
    then have "find (\<lambda>c. keyed c \<and> cookie_key c = k) (rev (secondary @ primary)) \<noteq> None"
      unfolding find_None_iff by blast
    then have "map_of ?d k \<noteq> None"
      by (simp only: merge_loop_lookup last_keyed_def split: option.split) simp
    then have "k \<in> fst ` set ?d" by (simp add: map_of_eq_None_iff)
    then show "k \<in> set (map cookie_key ?m)" using keys by simp
  qed
  show ?thesis using a b c d by blast
qed

theorem merge_later_listed_wins_witness:
  "merge_cookie_sets [example_cookie ''.x.com'' ''ct0'' ''new'', example_cookie ''.x.com'' ''twid'' ''u1'']
                     [example_cookie ''.x.com'' ''auth_token'' ''a1'', example_cookie ''.x.com'' ''ct0'' ''old'']
     = [example_cookie ''.x.com'' ''auth_token'' ''a1'', example_cookie ''.x.com'' ''ct0'' ''new'',
        example_cookie ''.x.com'' ''twid'' ''u1'']
   \<and> find (\<lambda>c. cookie_key c = (''.x.com'', ''ct0'', ''/''))
        (merge_cookie_sets [example_cookie ''.x.com'' ''ct0'' ''new'', example_cookie ''.x.com'' ''twid'' ''u1'']
                     [example_cookie ''.x.com'' ''auth_token'' ''a1'', example_cookie ''.x.com'' ''ct0'' ''old''])
       = Some (example_cookie ''.x.com'' ''ct0'' ''new'')
   \<and> keyed (example_cookie ''.x.com'' ''ct0'' ''new'')"
proof -
  let ?p = "[example_cookie ''.x.com'' ''ct0'' ''new'', example_cookie ''.x.com'' ''twid'' ''u1'']"
  let ?s = "[example_cookie ''.x.com'' ''auth_token'' ''a1'', example_cookie ''.x.com'' ''ct0'' ''old'']"
  have m: "merge_cookie_sets ?p ?s
     = [example_cookie ''.x.com'' ''auth_token'' ''a1'', example_cookie ''.x.com'' ''ct0'' ''new'',
        example_cookie ''.x.com'' ''twid'' ''u1'']"
    by code_simp
  have l: "last_keyed (''.x.com'', ''ct0'', ''/'') ?p = Some (example_cookie ''.x.com'' ''ct0'' ''new'')"
    by code_simp
  have "example_cookie ''.x.com'' ''ct0'' ''new'' \<in> set (merge_cookie_sets ?p ?s)"
    unfolding m by simp
  then have k: "keyed (example_cookie ''.x.com'' ''ct0'' ''new'')"
    using merge_later_listed_wins [of ?p ?s "(''.x.com'', ''ct0'', ''/'')"] by blast
  have f: "find (\<lambda>c. cookie_key c = (''.x.com'', ''ct0'', ''/'')) (merge_cookie_sets ?p ?s)
       = Some (example_cookie ''.x.com'' ''ct0'' ''new'')"
    using merge_later_listed_wins [of ?p ?s "(''.x.com'', ''ct0'', ''/'')"] l by simp
  show ?thesis using m f k by blast
qed

section \<open>Properties of the process supervisor\<close>
















end
